theory Spec2Isabelle
  imports Main "HOL-Library.Word" "HOL-Library.Multiset"
begin

section \<open>The metrics adapter of pkg/stats/stats.go\<close>

text \<open>
  The package adapts "set to an absolute value" and "increment" reporting to a backend
  that offers additive counters and pull-sampled gauges. The development embeds the
  instruments of \<^verbatim>\<open>stats.go\<close> and proves what they send to the backend.
\<close>

subsection \<open>Data\<close>

text \<open>
  Go's \<^verbatim>\<open>int64\<close> and \<^verbatim>\<open>uint64\<close> are 64-bit words: subtraction and addition wrap.
\<close>

type_synonym int64 = "64 word"
type_synonym uint64 = "64 word"
type_synonym uint32 = "32 word"

text \<open>
  A label mapping \<^verbatim>\<open>map[string]string\<close> is held as the sequence of its entries in the
  order in which \<^verbatim>\<open>range\<close> enumerates them; the keys of a Go map are distinct.
\<close>

type_synonym labelmap = "(string \<times> string) list"

definition wellformed :: "labelmap \<Rightarrow> bool" where
  "wellformed m = distinct (map fst m)"

text \<open>\<^verbatim>\<open>attribute.KeyValue\<close> with a string value, as \<^verbatim>\<open>attribute.String\<close> builds it.\<close>

datatype KeyValue = KeyValue (Key: string) (Value: string)

definition attribute_String :: "string \<Rightarrow> string \<Rightarrow> KeyValue" where
  "attribute_String k v = KeyValue k v"

text \<open>\<^verbatim>\<open>fmt.Sprint\<close> of a single string operand is that string.\<close>

definition fmt_Sprint :: "string \<Rightarrow> string" where
  "fmt_Sprint v = v"

text \<open>
  \<^verbatim>\<open>transformLabels\<close>: the loop over the entries appends one attribute per entry to an
  initially empty slice.
\<close>

fun transformLabels_loop :: "KeyValue list \<Rightarrow> labelmap \<Rightarrow> KeyValue list" where
  "transformLabels_loop labels [] = labels"
| "transformLabels_loop labels ((k, v) # rest) =
     (let valAsStr = fmt_Sprint v;
          thisKv = attribute_String k valAsStr
      in transformLabels_loop (labels @ [thisKv]) rest)"

definition transformLabels :: "labelmap \<Rightarrow> KeyValue list" where
  "transformLabels decodedKey = transformLabels_loop [] decodedKey"

text \<open>
  What a call can end with instead of a result: \<^verbatim>\<open>log.Fatal\<close> in \<^verbatim>\<open>Set\<close>, the error
  \<^verbatim>\<open>NewPrometheusMetricsProvider\<close> returns, and a panic.
\<close>

datatype error =
    Fatal string
  | InitError string
  | Panic string

text \<open>
  \<^verbatim>\<open>hashstructure.Hash\<close> belongs to a library outside the repository. It is a parameter of
  the model: a function from the label mapping to an error or a 64-bit key.
\<close>

type_synonym hasher = "labelmap \<Rightarrow> string + uint64"

text \<open>
  The backend's \<^verbatim>\<open>metric.Int64Counter\<close> is outside the repository too. The model records
  what the instruments send to it: the sequence of \<^verbatim>\<open>Add\<close> calls, each with its increment
  and attributes.
\<close>

type_synonym backend = "(int64 \<times> KeyValue list) list"

definition counter_Add :: "backend \<Rightarrow> int64 \<Rightarrow> KeyValue list \<Rightarrow> backend" where
  "counter_Add b incr labels = b @ [(incr, labels)]"

text \<open>The total of the increments sent, accumulated in \<^verbatim>\<open>int64\<close>.\<close>

definition total :: "backend \<Rightarrow> int64" where
  "total b = sum_list (map fst b)"

text \<open>The same total over the integers, each increment read as a signed number.\<close>

definition total_int :: "backend \<Rightarrow> int" where
  "total_int b = sum_list (map (\<lambda>(d, ls). sint d) b)"

subsection \<open>The Set Instrument\<close>

record setCounter =
  counter :: backend
  counterMap :: "uint64 \<rightharpoonup> int64"

text \<open>\<^verbatim>\<open>NewSetCounter\<close>: a counter nothing was added to, and an empty map.\<close>

definition NewSetCounter :: "setCounter" where
  "NewSetCounter = \<lparr> counter = [], counterMap = Map.empty \<rparr>"

text \<open>Reading a Go map at an absent key gives the zero value.\<close>

definition lookup :: "(uint64 \<rightharpoonup> int64) \<Rightarrow> uint64 \<Rightarrow> int64" where
  "lookup m k = (case m k of None \<Rightarrow> 0 | Some v \<Rightarrow> v)"

text \<open>
  \<^verbatim>\<open>setCounter.Set\<close>. A failing hash ends the process (\<^verbatim>\<open>log.Fatal\<close>); an unchanged value
  returns before the store and the \<^verbatim>\<open>Add\<close>.
\<close>

definition setCounter_Set :: "hasher \<Rightarrow> setCounter \<Rightarrow> int64 \<Rightarrow> labelmap \<Rightarrow> error + setCounter" where
  "setCounter_Set hash c intVal decodedKey =
     (let labels = transformLabels decodedKey in
      case hash decodedKey of
        Inl err \<Rightarrow> Inl (Fatal ''This should never happen'')
      | Inr keyHash \<Rightarrow>
          (let oldVal = lookup (counterMap c) keyHash;
               diff = intVal - oldVal
           in if oldVal = intVal then Inr c
              else Inr (c\<lparr> counterMap := (counterMap c)(keyHash \<mapsto> intVal),
                         counter := counter_Add (counter c) diff labels \<rparr>)))"

text \<open>A sequence of calls on one instrument; the first fatal error ends it.\<close>

fun Set_all :: "hasher \<Rightarrow> setCounter \<Rightarrow> (int64 \<times> labelmap) list \<Rightarrow> error + setCounter" where
  "Set_all hash c [] = Inr c"
| "Set_all hash c ((v, l) # calls) =
     (case setCounter_Set hash c v l of
        Inl e \<Rightarrow> Inl e
      | Inr c' \<Rightarrow> Set_all hash c' calls)"

text \<open>The \<^verbatim>\<open>Add\<close> calls a run made: those of the final backend past the initial ones.\<close>

definition sent :: "setCounter \<Rightarrow> setCounter \<Rightarrow> backend" where
  "sent c c' = drop (length (counter c)) (counter c')"

subsection \<open>The Increment Instrument\<close>

text \<open>\<^verbatim>\<open>incrementCounter.Increment\<close> adds 1 under the attributes of the labels.\<close>

definition Increment :: "backend \<Rightarrow> labelmap \<Rightarrow> backend" where
  "Increment b decodedKey =
     (let ls = transformLabels decodedKey in counter_Add b 1 ls)"

subsection \<open>The Gauge Instrument\<close>

text \<open>
  \<^verbatim>\<open>sync.RWMutex\<close>, of the standard library: one writer or any number of readers. \<^verbatim>\<open>Lock\<close>
  and \<^verbatim>\<open>RLock\<close> block while they cannot be granted, which is the value \<open>None\<close>: the
  caller does not go on.
\<close>

record RWMutex =
  writer :: bool
  readers :: nat

definition unlocked :: "RWMutex" where
  "unlocked = \<lparr> writer = False, readers = 0 \<rparr>"

definition Lock :: "RWMutex \<Rightarrow> RWMutex option" where
  "Lock m = (if \<not> writer m \<and> readers m = 0 then Some (m\<lparr> writer := True \<rparr>) else None)"

definition Unlock :: "RWMutex \<Rightarrow> RWMutex" where
  "Unlock m = m\<lparr> writer := False \<rparr>"

definition RLock :: "RWMutex \<Rightarrow> RWMutex option" where
  "RLock m = (if \<not> writer m then Some (m\<lparr> readers := Suc (readers m) \<rparr>) else None)"

definition RUnlock :: "RWMutex \<Rightarrow> RWMutex" where
  "RUnlock m = m\<lparr> readers := readers m - 1 \<rparr>"

text \<open>
  The three cells \<^verbatim>\<open>NewGauge\<close> allocates, which the \<^verbatim>\<open>gauge\<close> it returns and the observer
  callback it registers both point to.
\<close>

record gauge =
  val :: int64
  labels :: "KeyValue list"
  lock :: RWMutex

text \<open>\<^verbatim>\<open>new(int64)\<close> is 0 and \<^verbatim>\<open>new([]attribute.KeyValue)\<close> is the nil slice.\<close>

definition NewGauge :: "gauge" where
  "NewGauge = \<lparr> val = 0, labels = [], lock = unlocked \<rparr>"

text \<open>
  \<^verbatim>\<open>gauge.Set\<close> run without interruption: the labels are transformed, the lock is taken,
  both cells are written, and the deferred \<^verbatim>\<open>Unlock\<close> runs at the return.
\<close>

definition gauge_Set :: "gauge \<Rightarrow> int64 \<Rightarrow> labelmap \<Rightarrow> gauge option" where
  "gauge_Set g intVal decodedKey =
     (let ls = transformLabels decodedKey in
      case Lock (lock g) of
        None \<Rightarrow> None
      | Some m \<Rightarrow>
          (let g1 = g\<lparr> lock := m \<rparr>;
               g2 = g1\<lparr> labels := ls \<rparr>;
               g3 = g2\<lparr> val := intVal \<rparr>
           in Some (g3\<lparr> lock := Unlock (lock g3) \<rparr>)))"

fun gauge_Set_all :: "gauge \<Rightarrow> (int64 \<times> labelmap) list \<Rightarrow> gauge option" where
  "gauge_Set_all g [] = Some g"
| "gauge_Set_all g ((v, l) # calls) =
     (case gauge_Set g v l of
        None \<Rightarrow> None
      | Some g' \<Rightarrow> gauge_Set_all g' calls)"

text \<open>
  The observer callback run without interruption: it reads both cells under the read
  lock and hands them to \<^verbatim>\<open>ior.Observe\<close>. The result is the gauge afterwards and the pair
  observed.
\<close>

definition observer :: "gauge \<Rightarrow> (gauge \<times> int64 \<times> KeyValue list) option" where
  "observer g =
     (case RLock (lock g) of
        None \<Rightarrow> None
      | Some m \<Rightarrow>
          (let g1 = g\<lparr> lock := m \<rparr>;
               value = val g1;
               ls = labels g1;
               g2 = g1\<lparr> lock := RUnlock (lock g1) \<rparr>
           in Some (g2, value, ls)))"

subsection \<open>The provider\<close>

definition ebpfMeter :: "string" where
  "ebpfMeter = ''ebpf.solo.io''"

record PrometheusOpts =
  Port :: uint32
  MetricsPath :: string

definition initDefaults :: "PrometheusOpts \<Rightarrow> PrometheusOpts" where
  "initDefaults p =
     (let p1 = (if Port p = 0 then p\<lparr> Port := 9091 \<rparr> else p);
          p2 = (if MetricsPath p1 = [] then p1\<lparr> MetricsPath := ''/metrics'' \<rparr> else p1)
      in p2)"

record metricsProvider =
  meter :: string

text \<open>
  What the constructor meets outside the program: whether \<^verbatim>\<open>prometheus.New\<close> fails (and
  with which message), and which ports are already bound, so that \<^verbatim>\<open>ListenAndServe\<close> on
  them returns an error instead of serving.
\<close>

record world =
  exporter_err :: "string option"
  bound :: "uint32 \<Rightarrow> bool"

text \<open>
  What a call of the constructor leaves: the pair it returns (an error or the provider),
  whether the process-wide meter provider was installed, and the port and route that the
  background goroutine serves, \<open>None\<close> when \<^verbatim>\<open>ListenAndServe\<close> returned without serving.
\<close>

record construction =
  returned :: "error + metricsProvider"
  installed :: bool
  serving :: "(uint32 \<times> string) option"

text \<open>
  \<^verbatim>\<open>serveMux.HandleFunc\<close>, of the standard library, panics on the empty pattern; the mux
  is new and the handler is not nil, so it has no other reason to.
\<close>

definition HandleFunc :: "string \<Rightarrow> error option" where
  "HandleFunc pattern = (if pattern = [] then Some (Panic ''http: invalid pattern'') else None)"

text \<open>
  \<^verbatim>\<open>server.ListenAndServe()\<close> in the first goroutine: its error is assigned to the blank
  identifier.
\<close>

definition ListenAndServe :: "world \<Rightarrow> PrometheusOpts \<Rightarrow> (uint32 \<times> string) option" where
  "ListenAndServe w opts = (if bound w (Port opts) then None else Some (Port opts, MetricsPath opts))"

text \<open>
  The options come by pointer; \<^verbatim>\<open>opts.initDefaults()\<close> on a nil pointer dereferences it,
  which panics.
\<close>

definition NewPrometheusMetricsProvider :: "world \<Rightarrow> PrometheusOpts option \<Rightarrow> construction" where
  "NewPrometheusMetricsProvider w optsp =
     (case optsp of
        None \<Rightarrow>
          \<lparr> returned = Inl (Panic ''invalid memory address or nil pointer dereference''),
            installed = False,
            serving = None \<rparr>
      | Some opts0 \<Rightarrow>
          (let opts = initDefaults opts0 in
           case exporter_err w of
             Some err \<Rightarrow>
               \<lparr> returned = Inl (InitError (''failed to initialize prometheus exporter '' @ err)),
                 installed = False,
                 serving = None \<rparr>
           | None \<Rightarrow>
               (case HandleFunc (MetricsPath opts) of
                  Some p \<Rightarrow> \<lparr> returned = Inl p, installed = True, serving = None \<rparr>
                | None \<Rightarrow>
                    \<lparr> returned = Inr \<lparr> meter = ebpfMeter \<rparr>,
                      installed = True,
                      serving = ListenAndServe w opts \<rparr>)))"

subsection \<open>Goroutines on one gauge\<close>

text \<open>
  Callers of \<^verbatim>\<open>gauge.Set\<close> and the backend's invocations of the observer callback run
  concurrently. Each is a goroutine that stands before one statement of its function and
  holds its local variables; a step executes that statement on the shared cells. The
  statements of \<^verbatim>\<open>gauge.Set\<close> are: transform the labels, \<^verbatim>\<open>Lock\<close>, write \<^verbatim>\<open>*g.labels\<close>,
  write \<^verbatim>\<open>*g.val\<close>, the deferred \<^verbatim>\<open>Unlock\<close>. Those of the callback: \<^verbatim>\<open>RLock\<close>, read \<^verbatim>\<open>*val\<close>,
  read \<^verbatim>\<open>*labels\<close>, \<^verbatim>\<open>RUnlock\<close>, \<^verbatim>\<open>ior.Observe\<close>.
\<close>

datatype goroutine =
    Set_enter int64 labelmap
  | Set_Lock int64 "KeyValue list"
  | Set_write_labels int64 "KeyValue list"
  | Set_write_val int64 "KeyValue list"
  | Set_Unlock int64 "KeyValue list"
  | Set_done int64 "KeyValue list"
  | Obs_RLock
  | Obs_read_val
  | Obs_read_labels int64
  | Obs_RUnlock int64 "KeyValue list"
  | Obs_Observe int64 "KeyValue list"
  | Obs_done int64 "KeyValue list"

text \<open>One statement of one goroutine; \<open>None\<close> when it has returned or waits for the lock.\<close>

fun gauge_step :: "gauge \<Rightarrow> goroutine \<Rightarrow> (gauge \<times> goroutine) option" where
  "gauge_step g (Set_enter intVal decodedKey) = Some (g, Set_Lock intVal (transformLabels decodedKey))"
| "gauge_step g (Set_Lock intVal ls) =
     (case Lock (lock g) of
        None \<Rightarrow> None
      | Some m \<Rightarrow> Some (g\<lparr> lock := m \<rparr>, Set_write_labels intVal ls))"
| "gauge_step g (Set_write_labels intVal ls) = Some (g\<lparr> labels := ls \<rparr>, Set_write_val intVal ls)"
| "gauge_step g (Set_write_val intVal ls) = Some (g\<lparr> val := intVal \<rparr>, Set_Unlock intVal ls)"
| "gauge_step g (Set_Unlock intVal ls) = Some (g\<lparr> lock := Unlock (lock g) \<rparr>, Set_done intVal ls)"
| "gauge_step g (Set_done intVal ls) = None"
| "gauge_step g Obs_RLock =
     (case RLock (lock g) of
        None \<Rightarrow> None
      | Some m \<Rightarrow> Some (g\<lparr> lock := m \<rparr>, Obs_read_val))"
| "gauge_step g Obs_read_val = Some (g, Obs_read_labels (val g))"
| "gauge_step g (Obs_read_labels value) = Some (g, Obs_RUnlock value (labels g))"
| "gauge_step g (Obs_RUnlock value ls) = Some (g\<lparr> lock := RUnlock (lock g) \<rparr>, Obs_Observe value ls)"
| "gauge_step g (Obs_Observe value ls) = Some (g, Obs_done value ls)"
| "gauge_step g (Obs_done value ls) = None"

text \<open>
  The scheduler picks goroutine \<open>i\<close>; a goroutine that cannot step (or an index of none)
  leaves everything as it is.
\<close>

definition gauge_sched :: "nat \<Rightarrow> gauge \<times> goroutine list \<Rightarrow> gauge \<times> goroutine list" where
  "gauge_sched i s =
     (case s of (g, ts) \<Rightarrow>
        if i < length ts then
          (case gauge_step g (ts ! i) of
             None \<Rightarrow> (g, ts)
           | Some (g', t') \<Rightarrow> (g', ts[i := t']))
        else (g, ts))"

fun gauge_run :: "nat list \<Rightarrow> gauge \<times> goroutine list \<Rightarrow> gauge \<times> goroutine list" where
  "gauge_run [] s = s"
| "gauge_run (i # sched) s = gauge_run sched (gauge_sched i s)"

text \<open>A goroutine at the entry of its function.\<close>

fun at_entry :: "goroutine \<Rightarrow> bool" where
  "at_entry (Set_enter intVal decodedKey) = True"
| "at_entry Obs_RLock = True"
| "at_entry _ = False"

text \<open>The pair a call of \<^verbatim>\<open>gauge.Set\<close> is to store.\<close>

fun entry_pair :: "goroutine \<Rightarrow> (int64 \<times> KeyValue list) option" where
  "entry_pair (Set_enter intVal decodedKey) = Some (intVal, transformLabels decodedKey)"
| "entry_pair _ = None"

text \<open>The pair a callback has read from the two cells, once it has read both.\<close>

fun snapshot :: "goroutine \<Rightarrow> (int64 \<times> KeyValue list) option" where
  "snapshot (Obs_RUnlock value ls) = Some (value, ls)"
| "snapshot (Obs_Observe value ls) = Some (value, ls)"
| "snapshot (Obs_done value ls) = Some (value, ls)"
| "snapshot _ = None"

text \<open>
  The whole pairs there are: the one in the cells at the start, and one for each call of
  \<^verbatim>\<open>gauge.Set\<close>.
\<close>

definition whole_pairs :: "gauge \<Rightarrow> goroutine list \<Rightarrow> (int64 \<times> KeyValue list) list" where
  "whole_pairs g ts = (val g, labels g) # List.map_filter entry_pair ts"

text \<open>
  A goroutine between \<^verbatim>\<open>Lock\<close> and \<^verbatim>\<open>Unlock\<close> (in its write section), and one between
  \<^verbatim>\<open>RLock\<close> and \<^verbatim>\<open>RUnlock\<close> (in its read section).
\<close>

fun in_write :: "goroutine \<Rightarrow> bool" where
  "in_write (Set_write_labels intVal ls) = True"
| "in_write (Set_write_val intVal ls) = True"
| "in_write (Set_Unlock intVal ls) = True"
| "in_write _ = False"

fun in_read :: "goroutine \<Rightarrow> bool" where
  "in_read Obs_read_val = True"
| "in_read (Obs_read_labels value) = True"
| "in_read (Obs_RUnlock value ls) = True"
| "in_read _ = False"

text \<open>
  What a goroutine knows of the cells where it stands, and the invariant of the lock: the
  writer flag and the reader count tell how many goroutines are inside, never a writer
  with a reader, and the cells hold a whole pair whenever no writer is inside.
\<close>

fun local_ok :: "(int64 \<times> KeyValue list) set \<Rightarrow> gauge \<Rightarrow> goroutine \<Rightarrow> bool" where
  "local_ok G g (Set_enter intVal decodedKey) = ((intVal, transformLabels decodedKey) \<in> G)"
| "local_ok G g (Set_Lock intVal ls) = ((intVal, ls) \<in> G)"
| "local_ok G g (Set_write_labels intVal ls) = ((intVal, ls) \<in> G)"
| "local_ok G g (Set_write_val intVal ls) = ((intVal, ls) \<in> G \<and> labels g = ls)"
| "local_ok G g (Set_Unlock intVal ls) = ((intVal, ls) \<in> G \<and> val g = intVal \<and> labels g = ls)"
| "local_ok G g (Set_done intVal ls) = True"
| "local_ok G g Obs_RLock = True"
| "local_ok G g Obs_read_val = True"
| "local_ok G g (Obs_read_labels value) = (value = val g)"
| "local_ok G g (Obs_RUnlock value ls) = (value = val g \<and> ls = labels g)"
| "local_ok G g (Obs_Observe value ls) = ((value, ls) \<in> G)"
| "local_ok G g (Obs_done value ls) = ((value, ls) \<in> G)"

definition gauge_inv :: "(int64 \<times> KeyValue list) set \<Rightarrow> gauge \<Rightarrow> goroutine multiset \<Rightarrow> bool" where
  "gauge_inv G g M \<longleftrightarrow>
     size (filter_mset in_write M) = (if writer (lock g) then 1 else 0)
   \<and> size (filter_mset in_read M) = readers (lock g)
   \<and> (writer (lock g) \<longrightarrow> readers (lock g) = 0)
   \<and> (\<not> writer (lock g) \<longrightarrow> (val g, labels g) \<in> G)
   \<and> (\<forall>t \<in># M. local_ok G g t)"

subsection \<open>Goroutines on one Set Instrument\<close>

text \<open>
  \<^verbatim>\<open>setCounter\<close> has two fields, the backend counter and the map, and no lock, and
  \<^verbatim>\<open>setCounter.Set\<close> takes none. Concurrent callers are goroutines that stand before one
  statement of \<^verbatim>\<open>Set\<close>: transform and hash the labels, read \<^verbatim>\<open>c.counterMap[keyHash]\<close>,
  compute the difference and compare, store \<^verbatim>\<open>c.counterMap[keyHash] = intVal\<close>, call
  \<^verbatim>\<open>c.counter.Add\<close>.
\<close>

datatype set_goroutine =
    SC_enter int64 labelmap
  | SC_lookup int64 "KeyValue list" uint64
  | SC_compare int64 "KeyValue list" uint64 int64
  | SC_store int64 "KeyValue list" uint64 int64
  | SC_Add int64 "KeyValue list" int64
  | SC_done

text \<open>
  One statement of one goroutine: an error when \<^verbatim>\<open>log.Fatal\<close> ends the process, \<open>None\<close>
  when the goroutine has returned.
\<close>

fun setCounter_step ::
  "hasher \<Rightarrow> setCounter \<Rightarrow> set_goroutine \<Rightarrow> error + (setCounter \<times> set_goroutine) option" where
  "setCounter_step hash c (SC_enter intVal decodedKey) =
     (let ls = transformLabels decodedKey in
      case hash decodedKey of
        Inl err \<Rightarrow> Inl (Fatal ''This should never happen'')
      | Inr keyHash \<Rightarrow> Inr (Some (c, SC_lookup intVal ls keyHash)))"
| "setCounter_step hash c (SC_lookup intVal ls keyHash) =
     Inr (Some (c, SC_compare intVal ls keyHash (lookup (counterMap c) keyHash)))"
| "setCounter_step hash c (SC_compare intVal ls keyHash oldVal) =
     (let diff = intVal - oldVal in
      if oldVal = intVal then Inr (Some (c, SC_done))
      else Inr (Some (c, SC_store intVal ls keyHash diff)))"
| "setCounter_step hash c (SC_store intVal ls keyHash diff) =
     Inr (Some (c\<lparr> counterMap := (counterMap c)(keyHash \<mapsto> intVal) \<rparr>, SC_Add intVal ls diff))"
| "setCounter_step hash c (SC_Add intVal ls diff) =
     Inr (Some (c\<lparr> counter := counter_Add (counter c) diff ls \<rparr>, SC_done))"
| "setCounter_step hash c SC_done = Inr None"

definition setCounter_sched ::
  "hasher \<Rightarrow> nat \<Rightarrow> setCounter \<times> set_goroutine list \<Rightarrow> error + setCounter \<times> set_goroutine list" where
  "setCounter_sched hash i s =
     (case s of (c, ts) \<Rightarrow>
        if i < length ts then
          (case setCounter_step hash c (ts ! i) of
             Inl e \<Rightarrow> Inl e
           | Inr None \<Rightarrow> Inr (c, ts)
           | Inr (Some (c', t')) \<Rightarrow> Inr (c', ts[i := t']))
        else Inr (c, ts))"

fun setCounter_run ::
  "hasher \<Rightarrow> nat list \<Rightarrow> setCounter \<times> set_goroutine list \<Rightarrow> error + setCounter \<times> set_goroutine list" where
  "setCounter_run hash [] s = Inr s"
| "setCounter_run hash (i # sched) s =
     (case setCounter_sched hash i s of
        Inl e \<Rightarrow> Inl e
      | Inr s' \<Rightarrow> setCounter_run hash sched s')"

text \<open>What a run leaves: the \<^verbatim>\<open>Add\<close> calls made and the value recorded under a key.\<close>

definition left ::
  "uint64 \<Rightarrow> error + setCounter \<times> set_goroutine list \<Rightarrow> (backend \<times> int64 \<times> set_goroutine list) option" where
  "left k r = (case r of Inl e \<Rightarrow> None | Inr (c, ts) \<Rightarrow> Some (counter c, lookup (counterMap c) k, ts))"

text \<open>
  No function into the 64-bit keys separates all label mappings: among the one-entry
  mappings \<open>{k: a\<^sup>n}\<close> two get the same key.
\<close>

definition unary :: "nat \<Rightarrow> labelmap" where
  "unary n = [(''k'', replicate n (CHR ''a''))]"

subsection \<open>Facts about the Set Instrument\<close>

lemma transformLabels_loop_eq:
  "transformLabels_loop acc m = acc @ map (\<lambda>(k, v). KeyValue k v) m"
  by (induction acc m rule: transformLabels_loop.induct)
     (simp_all add: fmt_Sprint_def attribute_String_def)

lemma transformLabels_eq:
  "transformLabels m = map (\<lambda>(k, v). KeyValue k v) m"
  by (simp add: transformLabels_def transformLabels_loop_eq)

lemma Set_same:
  assumes "hash l = Inr k" and "lookup (counterMap c) k = v"
  shows "setCounter_Set hash c v l = Inr c"
  using assms by (simp add: setCounter_Set_def)

lemma Set_changed:
  assumes "hash l = Inr k" and "lookup (counterMap c) k \<noteq> v"
  shows "setCounter_Set hash c v l =
           Inr (c\<lparr> counterMap := (counterMap c)(k \<mapsto> v),
                   counter := counter c @ [(v - lookup (counterMap c) k, transformLabels l)] \<rparr>)"
  using assms by (simp add: setCounter_Set_def counter_Add_def)

lemma Set_step:
  assumes "hash l = Inr k"
  obtains c' where "setCounter_Set hash c v l = Inr c'"
    and "lookup (counterMap c') k = v"
    and "\<exists>ds. counter c' = counter c @ ds \<and> total ds = v - lookup (counterMap c) k"
proof (cases "lookup (counterMap c) k = v")
  case True
  with assms have "setCounter_Set hash c v l = Inr c" by (rule Set_same)
  moreover have "\<exists>ds. counter c = counter c @ ds \<and> total ds = v - lookup (counterMap c) k"
    using True by (intro exI [of _ "[]"]) (simp add: total_def)
  ultimately show ?thesis using True that by blast
next
  case False
  let ?c' = "c\<lparr> counterMap := (counterMap c)(k \<mapsto> v),
                 counter := counter c @ [(v - lookup (counterMap c) k, transformLabels l)] \<rparr>"
  from assms False have "setCounter_Set hash c v l = Inr ?c'" by (rule Set_changed)
  moreover have "lookup (counterMap ?c') k = v" by (simp add: lookup_def)
  moreover have "\<exists>ds. counter ?c' = counter c @ ds \<and> total ds = v - lookup (counterMap c) k"
    by (intro exI [of _ "[(v - lookup (counterMap c) k, transformLabels l)]"])
       (simp add: total_def)
  ultimately show ?thesis using that by blast
qed

lemma Set_all_same_key:
  assumes "\<forall>(v, l) \<in> set calls. hash l = Inr k"
  shows "\<exists>c' ds. Set_all hash c calls = Inr c' \<and> counter c' = counter c @ ds
            \<and> lookup (counterMap c') k = (if calls = [] then lookup (counterMap c) k else fst (last calls))
            \<and> total ds = lookup (counterMap c') k - lookup (counterMap c) k"
  using assms
proof (induction calls arbitrary: c)
  case Nil
  show ?case by (simp add: total_def)
next
  case (Cons call calls)
  obtain v l where call: "call = (v, l)" by (cases call)
  with Cons.prems have hl: "hash l = Inr k" by simp
  from hl obtain c1 ds1 where s1: "setCounter_Set hash c v l = Inr c1"
    and k1: "lookup (counterMap c1) k = v"
    and d1: "counter c1 = counter c @ ds1" "total ds1 = v - lookup (counterMap c) k"
    by (rule Set_step [of hash l k c v]) blast
  from Cons.prems have "\<forall>(v, l) \<in> set calls. hash l = Inr k" by simp
  from Cons.IH [OF this, of c1] obtain c' ds where
    r: "Set_all hash c1 calls = Inr c'" "counter c' = counter c1 @ ds"
       "lookup (counterMap c') k = (if calls = [] then lookup (counterMap c1) k else fst (last calls))"
       "total ds = lookup (counterMap c') k - lookup (counterMap c1) k"
    by blast
  have "Set_all hash c (call # calls) = Inr c'" using call s1 r(1) by simp
  moreover have "counter c' = counter c @ (ds1 @ ds)" using d1(1) r(2) by simp
  moreover have "lookup (counterMap c') k = fst (last (call # calls))"
    using r(3) k1 call by simp
  moreover have "total (ds1 @ ds) = lookup (counterMap c') k - lookup (counterMap c) k"
    using d1(2) r(4) k1 by (simp add: total_def)
  ultimately show ?case by (intro exI [of _ c'] exI [of _ "ds1 @ ds"]) simp
qed

lemma Set_frame:
  assumes "hash l = Inr k"
  shows "\<exists>c'. setCounter_Set hash c v l = Inr c' \<and> (\<forall>k'. k' \<noteq> k \<longrightarrow> counterMap c' k' = counterMap c k')"
  using assms by (simp add: setCounter_Set_def Let_def)

lemma lookup_empty: "lookup Map.empty k = 0"
  by (simp add: lookup_def)

lemma lookup_absent: "m k = None \<Longrightarrow> lookup m k = 0"
  by (simp add: lookup_def)

lemma unary_wellformed: "wellformed (unary n)"
  by (simp add: unary_def wellformed_def)

lemma unary_inj: "set (unary n) = set (unary m) \<Longrightarrow> n = m"
proof -
  assume "set (unary n) = set (unary m)"
  then have "replicate n (CHR ''a'') = replicate m (CHR ''a'')"
    by (simp add: unary_def)
  then have "length (replicate n (CHR ''a'')) = length (replicate m (CHR ''a''))"
    by (rule arg_cong)
  then show "n = m" by simp
qed

lemma key_collision:
  fixes g :: "nat \<Rightarrow> uint64"
  shows "\<exists>n m. n \<noteq> m \<and> g n = g m"
proof (rule ccontr)
  assume "\<not> (\<exists>n m. n \<noteq> m \<and> g n = g m)"
  then have "inj g" by (auto simp: inj_on_def)
  moreover have "finite (range g)" by (rule finite_subset [of _ UNIV]) simp_all
  ultimately have "finite (UNIV :: nat set)" by (rule finite_imageD [rotated])
  then show False by simp
qed

lemma Set_all_collide:
  assumes "hash A = Inr k" and "hash B = Inr k"
  shows "Set_all hash NewSetCounter [(5, A), (3, B)] =
           Inr \<lparr> counter = [(5, transformLabels A), (- 2, transformLabels B)],
                 counterMap = [k \<mapsto> 3] \<rparr>"
  using assms by (simp add: setCounter_Set_def NewSetCounter_def lookup_def counter_Add_def)

lemma Set_all_fatal:
  assumes "hash A = Inl e"
  shows "Set_all hash c ((v, A) # calls) = Inl (Fatal ''This should never happen'')"
  using assms by (simp add: setCounter_Set_def)

lemma sint_diff_nonneg:
  fixes a b :: int64
  assumes "0 \<le> sint a" and "0 \<le> sint b"
  shows "sint (a - b) = sint a - sint b"
proof -
  have "sint a < 2 ^ 63" "sint b < 2 ^ 63"
    using sint_lt [of a] sint_lt [of b] by simp_all
  with assms have "- (2 ^ 63) \<le> sint a - sint b" "sint a - sint b < 2 ^ 63"
    by simp_all
  then have "signed_take_bit 63 (sint a - sint b) = sint a - sint b"
    by (rule signed_take_bit_int_eq_self)
  then show ?thesis by (simp add: sint_word_ariths)
qed

lemma Set_step_int:
  assumes "hash l = Inr k" and "0 \<le> sint v" and "0 \<le> sint (lookup (counterMap c) k)"
  obtains c' ds where "setCounter_Set hash c v l = Inr c'"
    and "lookup (counterMap c') k = v"
    and "counter c' = counter c @ ds"
    and "total_int ds = sint v - sint (lookup (counterMap c) k)"
proof (cases "lookup (counterMap c) k = v")
  case True
  with assms(1) have "setCounter_Set hash c v l = Inr c" by (rule Set_same)
  moreover have "counter c = counter c @ []" by simp
  moreover have "total_int [] = sint v - sint (lookup (counterMap c) k)"
    using True by (simp add: total_int_def)
  ultimately show ?thesis using True that by blast
next
  case False
  let ?d = "v - lookup (counterMap c) k"
  let ?c' = "c\<lparr> counterMap := (counterMap c)(k \<mapsto> v),
                 counter := counter c @ [(?d, transformLabels l)] \<rparr>"
  from assms(1) False have "setCounter_Set hash c v l = Inr ?c'" by (rule Set_changed)
  moreover have "lookup (counterMap ?c') k = v" by (simp add: lookup_def)
  moreover have "counter ?c' = counter c @ [(?d, transformLabels l)]" by simp
  moreover have "total_int [(?d, transformLabels l)] = sint v - sint (lookup (counterMap c) k)"
    using assms(2,3) by (simp add: total_int_def sint_diff_nonneg)
  ultimately show ?thesis using that by blast
qed

lemma Set_all_same_key_int:
  assumes "\<forall>(v, l) \<in> set calls. hash l = Inr k \<and> 0 \<le> sint v"
    and "0 \<le> sint (lookup (counterMap c) k)"
  shows "\<exists>c' ds. Set_all hash c calls = Inr c' \<and> counter c' = counter c @ ds
            \<and> total_int ds = sint (lookup (counterMap c') k) - sint (lookup (counterMap c) k)"
  using assms
proof (induction calls arbitrary: c)
  case Nil
  show ?case by (simp add: total_int_def)
next
  case (Cons call calls)
  obtain v l where call: "call = (v, l)" by (cases call)
  with Cons.prems have hl: "hash l = Inr k" and v: "0 \<le> sint v" by simp_all
  from hl v Cons.prems(2) obtain c1 ds1 where s1: "setCounter_Set hash c v l = Inr c1"
    and k1: "lookup (counterMap c1) k = v"
    and d1: "counter c1 = counter c @ ds1" "total_int ds1 = sint v - sint (lookup (counterMap c) k)"
    by (rule Set_step_int)
  from Cons.prems have rest: "\<forall>(v, l) \<in> set calls. hash l = Inr k \<and> 0 \<le> sint v" by simp
  from v k1 have "0 \<le> sint (lookup (counterMap c1) k)" by simp
  from Cons.IH [OF rest this] obtain c' ds where
    r: "Set_all hash c1 calls = Inr c'" "counter c' = counter c1 @ ds"
       "total_int ds = sint (lookup (counterMap c') k) - sint (lookup (counterMap c1) k)"
    by blast
  have "Set_all hash c (call # calls) = Inr c'" using call s1 r(1) by simp
  moreover have "counter c' = counter c @ (ds1 @ ds)" using d1(1) r(2) by simp
  moreover have "total_int (ds1 @ ds) = sint (lookup (counterMap c') k) - sint (lookup (counterMap c) k)"
    using d1(2) r(3) k1 by (simp add: total_int_def)
  ultimately show ?case by blast
qed



subsection \<open>Claims about the Set Instrument\<close>

text \<open>
  C1. For a sequence of calls \<open>Set(labels, v\<^sub>1), ..., Set(labels, v\<^sub>n)\<close> on one Set
  Instrument whose label mappings all get the key \<open>k\<close>, the increments added to the
  backend counter sum to \<open>v\<^sub>n\<close> minus the value recorded for \<open>k\<close> before the sequence,
  which is \<open>0\<close> on a new instrument. The sum is the \<^verbatim>\<open>int64\<close> sum, as the increments are
  \<^verbatim>\<open>int64\<close>; it is also the sum over the integers when no value is negative. And a call
  whose value equals the recorded one returns the instrument as it was: nothing is added
  to the backend.
\<close>

theorem Set_sequence_cumulative:
  assumes "calls \<noteq> []" and "\<forall>(v, l) \<in> set calls. hash l = Inr k"
  shows "(\<exists>c'. Set_all hash c calls = Inr c'
            \<and> total (sent c c') = fst (last calls) - lookup (counterMap c) k
            \<and> ((\<forall>(v, l) \<in> set calls. 0 \<le> sint v) \<and> 0 \<le> sint (lookup (counterMap c) k) \<longrightarrow>
                 total_int (sent c c') = sint (fst (last calls)) - sint (lookup (counterMap c) k)))
       \<and> (\<exists>c'. Set_all hash NewSetCounter calls = Inr c'
            \<and> total (counter c') = fst (last calls) - 0)
       \<and> (\<forall>v l k'. hash l = Inr k' \<and> v = lookup (counterMap c) k' \<longrightarrow> setCounter_Set hash c v l = Inr c)"
proof (intro conjI)
  from Set_all_same_key [OF assms(2), of c] obtain c' ds where
    r: "Set_all hash c calls = Inr c'" "counter c' = counter c @ ds"
       "lookup (counterMap c') k = fst (last calls)"
       "total ds = lookup (counterMap c') k - lookup (counterMap c) k"
    using assms(1) by auto
  from r(2) have s: "sent c c' = ds" by (simp add: sent_def)
  have "total_int (sent c c') = sint (fst (last calls)) - sint (lookup (counterMap c) k)"
    if nn: "\<forall>(v, l) \<in> set calls. 0 \<le> sint v" "0 \<le> sint (lookup (counterMap c) k)"
  proof -
    from assms(2) nn(1) have "\<forall>(v, l) \<in> set calls. hash l = Inr k \<and> 0 \<le> sint v" by auto
    from Set_all_same_key_int [OF this nn(2)] obtain c'' ds' where
      q: "Set_all hash c calls = Inr c''" "counter c'' = counter c @ ds'"
         "total_int ds' = sint (lookup (counterMap c'') k) - sint (lookup (counterMap c) k)"
      by blast
    from q(1) r(1) have "c'' = c'" by simp
    with q r(2,3) s show ?thesis by simp
  qed
  with r s show "\<exists>c'. Set_all hash c calls = Inr c'
      \<and> total (sent c c') = fst (last calls) - lookup (counterMap c) k
      \<and> ((\<forall>(v, l) \<in> set calls. 0 \<le> sint v) \<and> 0 \<le> sint (lookup (counterMap c) k) \<longrightarrow>
           total_int (sent c c') = sint (fst (last calls)) - sint (lookup (counterMap c) k))"
    by auto
next
  from Set_all_same_key [OF assms(2), of NewSetCounter] obtain c' ds where
    r: "Set_all hash NewSetCounter calls = Inr c'" "counter c' = counter NewSetCounter @ ds"
       "lookup (counterMap c') k = fst (last calls)"
       "total ds = lookup (counterMap c') k - lookup (counterMap NewSetCounter) k"
    using assms(1) by auto
  from r(2) have "counter c' = ds" by (simp add: NewSetCounter_def)
  moreover have "lookup (counterMap NewSetCounter) k = 0"
    by (simp add: NewSetCounter_def lookup_empty)
  ultimately show "\<exists>c'. Set_all hash NewSetCounter calls = Inr c'
      \<and> total (counter c') = fst (last calls) - 0"
    using r by auto
next
  show "\<forall>v l k'. hash l = Inr k' \<and> v = lookup (counterMap c) k' \<longrightarrow> setCounter_Set hash c v l = Inr c"
    by (auto intro: Set_same)
qed

text \<open>
  The scenario of the specification: \<open>{status: ok}\<close> set to 10, 10 and 15, with a hasher
  that succeeds; the backend total is 15.
\<close>

theorem Set_sequence_cumulative_witness:
  "\<exists>c'. Set_all (\<lambda>l. Inr (word_of_nat (length l))) NewSetCounter
           [(10, [(''status'', ''ok'')]), (10, [(''status'', ''ok'')]), (15, [(''status'', ''ok'')])]
         = Inr c'
       \<and> total (counter c') = 15"
  using Set_sequence_cumulative [of
      "[(10, [(''status'', ''ok'')]), (10, [(''status'', ''ok'')]), (15, [(''status'', ''ok'')])]"
      "\<lambda>l. Inr (word_of_nat (length l))" 1 NewSetCounter]
  by simp

text \<open>
  Past the range of \<^verbatim>\<open>int64\<close> the two sums part: from the least value to 1 the difference
  wraps, and the increments sent add up to 1 in \<^verbatim>\<open>int64\<close> but not over the integers.
\<close>

lemma Set_sequence_wraps:
  "Set_all (\<lambda>l. Inr 0) NewSetCounter [(- (2 ^ 63), []), (1, [])]
     = Inr \<lparr> counter = [(- (2 ^ 63), []), (- (2 ^ 63) + 1, [])], counterMap = [0 \<mapsto> 1] \<rparr>
   \<and> total [(- (2 ^ 63), []), (- (2 ^ 63) + 1, [])] = 1
   \<and> total_int [(- (2 ^ 63), []), (- (2 ^ 63) + 1, [])] = 1 - 2 ^ 64"
  by (simp add: setCounter_Set_def NewSetCounter_def lookup_def counter_Add_def transformLabels_eq
      total_def total_int_def)




text \<open>
  C8, as stated, fails for every hasher: keys are 64-bit, so some two label mappings with
  different content get one key (or one of them is refused), and then \<open>Set(A, 5)\<close>
  followed by \<open>Set(B, 3)\<close> does not send the increments 5 and 3.
\<close>

theorem independent_baselines_counterexample:
  "\<not> (\<exists>hash :: hasher. \<forall>A B. wellformed A \<and> wellformed B \<and> set A \<noteq> set B \<longrightarrow>
        (\<exists>c'. Set_all hash NewSetCounter [(5, A), (3, B)] = Inr c' \<and> map fst (counter c') = [5, 3]))"
proof
  assume "\<exists>hash :: hasher. \<forall>A B. wellformed A \<and> wellformed B \<and> set A \<noteq> set B \<longrightarrow>
        (\<exists>c'. Set_all hash NewSetCounter [(5, A), (3, B)] = Inr c' \<and> map fst (counter c') = [5, 3])"
  then obtain hash :: hasher where
    P: "\<And>A B. wellformed A \<Longrightarrow> wellformed B \<Longrightarrow> set A \<noteq> set B \<Longrightarrow>
        \<exists>c'. Set_all hash NewSetCounter [(5, A), (3, B)] = Inr c' \<and> map fst (counter c') = [5, 3]"
    by blast
  have pair: "\<exists>c'. Set_all hash NewSetCounter [(5, unary n), (3, unary m)] = Inr c'
                \<and> map fst (counter c') = [5, 3]" if "n \<noteq> m" for n m
    using that P [OF unary_wellformed [of n] unary_wellformed [of m]] unary_inj by blast
  show False
  proof (cases "\<exists>n e. hash (unary n) = Inl e")
    case True
    then obtain n e where "hash (unary n) = Inl e" by blast
    then have "Set_all hash NewSetCounter [(5, unary n), (3, unary (Suc n))]
                 = Inl (Fatal ''This should never happen'')"
      by (rule Set_all_fatal)
    with pair [of n "Suc n"] show False by simp
  next
    case False
    then have ok: "\<exists>k. hash (unary n) = Inr k" for n
      by (cases "hash (unary n)") auto
    define g where "g n = (case hash (unary n) of Inr k \<Rightarrow> k | Inl e \<Rightarrow> 0)" for n
    have g: "hash (unary n) = Inr (g n)" for n
      unfolding g_def using ok [of n] by auto
    obtain n m where nm: "n \<noteq> m" "g n = g m"
      using key_collision [of g] by blast
    have "hash (unary n) = Inr (g n)" "hash (unary m) = Inr (g n)"
      using g [of n] g [of m] nm(2) by simp_all
    then have "Set_all hash NewSetCounter [(5, unary n), (3, unary m)] =
           Inr \<lparr> counter = [(5, transformLabels (unary n)), (- 2, transformLabels (unary m))],
                 counterMap = [g n \<mapsto> 3] \<rparr>"
      by (rule Set_all_collide)
    with pair [OF nm(1)] show False by simp
  qed
qed

text \<open>
  C8, amended. For two label mappings \<open>A\<close> and \<open>B\<close> whose keys differ, \<open>Set(A, 5)\<close>
  followed by \<open>Set(B, 3)\<close> on a new instrument sends the increments 5 and 3, each with
  its own attributes; and a \<open>Set\<close> call leaves the value recorded under every key
  other than its own as it was.
\<close>

theorem independent_baselines:
  assumes "hash A = Inr ka" and "hash B = Inr kb" and "ka \<noteq> kb"
  shows "(\<exists>c'. Set_all hash NewSetCounter [(5, A), (3, B)] = Inr c'
            \<and> counter c' = [(5, transformLabels A), (3, transformLabels B)])
       \<and> (\<exists>c'. setCounter_Set hash c v A = Inr c'
            \<and> (\<forall>k'. k' \<noteq> ka \<longrightarrow> counterMap c' k' = counterMap c k'))"
proof
  show "\<exists>c'. Set_all hash NewSetCounter [(5, A), (3, B)] = Inr c'
            \<and> counter c' = [(5, transformLabels A), (3, transformLabels B)]"
    using assms by (simp add: setCounter_Set_def NewSetCounter_def lookup_def counter_Add_def)
next
  show "\<exists>c'. setCounter_Set hash c v A = Inr c'
            \<and> (\<forall>k'. k' \<noteq> ka \<longrightarrow> counterMap c' k' = counterMap c k')"
    using assms(1) by (rule Set_frame)
qed

theorem independent_baselines_witness:
  "(\<exists>c'. Set_all (\<lambda>l. Inr (word_of_nat (length l))) NewSetCounter
             [(5, [(''op'', ''push'')]), (3, [])] = Inr c'
        \<and> counter c' = [(5, [KeyValue ''op'' ''push'']), (3, [])])
   \<and> (\<exists>c'. setCounter_Set (\<lambda>l. Inr (word_of_nat (length l)))
              \<lparr> counter = [], counterMap = [0 \<mapsto> 3] \<rparr> 7 [(''op'', ''push'')] = Inr c'
        \<and> counterMap c' 0 = Some 3)"
  using independent_baselines [of "\<lambda>l. Inr (word_of_nat (length l))" "[(''op'', ''push'')]" 1 "[]" 0
      "\<lparr> counter = [], counterMap = [0 \<mapsto> 3] \<rparr>" 7]
  by (simp add: transformLabels_eq) fastforce

subsection \<open>Facts about the Gauge Instrument\<close>

lemma gauge_Set_unlocked:
  assumes "lock g = unlocked"
  shows "gauge_Set g v l = Some \<lparr> val = v, labels = transformLabels l, lock = unlocked \<rparr>"
  using assms by (cases g) (simp add: gauge_Set_def Lock_def Unlock_def unlocked_def)

lemma gauge_Set_all_unlocked:
  assumes "lock g = unlocked"
  shows "\<exists>g'. gauge_Set_all g calls = Some g' \<and> lock g' = unlocked
           \<and> (calls \<noteq> [] \<longrightarrow> val g' = fst (last calls)
                 \<and> labels g' = transformLabels (snd (last calls)))"
  using assms
proof (induction calls arbitrary: g)
  case Nil
  then show ?case by simp
next
  case (Cons call calls)
  obtain v l where call: "call = (v, l)" by (cases call)
  let ?g1 = "\<lparr> val = v, labels = transformLabels l, lock = unlocked \<rparr>"
  have s1: "gauge_Set g v l = Some ?g1" using Cons.prems by (rule gauge_Set_unlocked)
  have "lock ?g1 = unlocked" by simp
  from Cons.IH [OF this] obtain g' where
    r: "gauge_Set_all ?g1 calls = Some g'" "lock g' = unlocked"
       "calls \<noteq> [] \<longrightarrow> val g' = fst (last calls) \<and> labels g' = transformLabels (snd (last calls))"
    by blast
  have "gauge_Set_all g (call # calls) = Some g'" using call s1 r(1) by simp
  moreover have "val g' = fst (last (call # calls))
      \<and> labels g' = transformLabels (snd (last (call # calls)))"
  proof (cases "calls = []")
    case True
    with r(1) have "g' = ?g1" by simp
    with True call show ?thesis by simp
  next
    case False
    with r(3) show ?thesis by simp
  qed
  ultimately show ?case using r(2) by blast
qed

lemma observer_no_writer:
  assumes "\<not> writer (lock g)"
  shows "observer g = Some (g, val g, labels g)"
  using assms by (cases g) (simp add: observer_def RLock_def RUnlock_def)

subsection \<open>Claims about the Gauge Instrument\<close>

text \<open>
  C4. The Gauge Instrument has one value cell and one labels cell, whatever the label
  mapping: a call \<open>Set(labels, v)\<close> on a gauge whose lock is free leaves exactly \<open>v\<close> and
  the attributes of \<open>labels\<close> there, whatever was stored, and after any sequence of such
  calls the cells hold the value and the attributes of the last call.
\<close>

theorem gauge_single_slot:
  assumes "calls \<noteq> []" and "lock g = unlocked"
  shows "(\<exists>g'. gauge_Set_all g calls = Some g'
            \<and> (val g', labels g') = (fst (last calls), transformLabels (snd (last calls))))
       \<and> gauge_Set g v l = Some \<lparr> val = v, labels = transformLabels l, lock = lock g \<rparr>"
proof
  from gauge_Set_all_unlocked [OF assms(2), of calls] assms(1)
  show "\<exists>g'. gauge_Set_all g calls = Some g'
            \<and> (val g', labels g') = (fst (last calls), transformLabels (snd (last calls)))"
    by auto
next
  show "gauge_Set g v l = Some \<lparr> val = v, labels = transformLabels l, lock = lock g \<rparr>"
    using gauge_Set_unlocked [OF assms(2)] assms(2) by simp
qed

theorem gauge_single_slot_witness:
  "\<exists>g'. gauge_Set_all NewGauge [(4, [(''a'', ''x'')]), (9, [(''b'', ''y'')])] = Some g'
        \<and> (val g', labels g') = (9, [KeyValue ''b'' ''y''])"
proof -
  have "[(4 :: int64, [(''a'', ''x'')]), (9, [(''b'', ''y'')])] \<noteq> []" by simp
  moreover have "lock NewGauge = unlocked" by (simp add: NewGauge_def)
  ultimately have
    "(\<exists>g'. gauge_Set_all NewGauge [(4, [(''a'', ''x'')]), (9, [(''b'', ''y'')])] = Some g'
        \<and> (val g', labels g') = (fst (last [(4 :: int64, [(''a'', ''x'')]), (9, [(''b'', ''y'')])]),
              transformLabels (snd (last [(4 :: int64, [(''a'', ''x'')]), (9, [(''b'', ''y'')])]))))
     \<and> gauge_Set NewGauge 0 [] = Some \<lparr> val = 0, labels = transformLabels [], lock = lock NewGauge \<rparr>"
    by (rule gauge_single_slot)
  then obtain g' where "gauge_Set_all NewGauge [(4, [(''a'', ''x'')]), (9, [(''b'', ''y'')])] = Some g'"
    and "(val g', labels g') = (fst (last [(4 :: int64, [(''a'', ''x'')]), (9, [(''b'', ''y'')])]),
              transformLabels (snd (last [(4 :: int64, [(''a'', ''x'')]), (9, [(''b'', ''y'')])])))"
    by blast
  moreover have "transformLabels [(''b'', ''y'')] = [KeyValue ''b'' ''y'']"
    by (simp add: transformLabels_eq)
  ultimately show ?thesis by (intro exI [of _ g']) simp
qed

text \<open>
  C9. On a gauge that \<open>Set\<close> was never called on, the observer callback reports the value
  0 with no attributes; and whenever it runs (no writer holding the lock) it reports the
  two cells as they are and leaves the gauge as it was.
\<close>

theorem observer_initial:
  "observer NewGauge = Some (NewGauge, 0, [])
   \<and> (\<not> writer (lock g) \<longrightarrow> observer g = Some (g, val g, labels g))"
  by (simp add: observer_no_writer) (simp add: observer_no_writer NewGauge_def unlocked_def)

theorem observer_initial_witness:
  "observer \<lparr> val = 7, labels = [KeyValue ''a'' ''x''], lock = unlocked \<rparr>
     = Some (\<lparr> val = 7, labels = [KeyValue ''a'' ''x''], lock = unlocked \<rparr>, 7, [KeyValue ''a'' ''x''])"
  using observer_initial [of "\<lparr> val = 7, labels = [KeyValue ''a'' ''x''], lock = unlocked \<rparr>"]
  by (simp add: unlocked_def)

subsection \<open>Claims about the provider\<close>

text \<open>
  C3, as stated, fails: with port 9091 already bound and an exporter that is constructed
  without error, the constructor returns the provider and no error.
\<close>

theorem bound_port_counterexample:
  "returned (NewPrometheusMetricsProvider
       \<lparr> exporter_err = None, bound = (\<lambda>p. p = 9091) \<rparr>
       (Some \<lparr> Port = 9091, MetricsPath = ''/metrics'' \<rparr>))
     = Inr \<lparr> meter = ''ebpf.solo.io'' \<rparr>"
  by (simp add: NewPrometheusMetricsProvider_def initDefaults_def HandleFunc_def ebpfMeter_def
      ListenAndServe_def)

text \<open>
  C3, amended. When the port of the options (after the defaults) is already bound, no
  listener serves and the call does not panic; it returns an error exactly when the
  construction of the exporter fails, and otherwise the provider with no error: the error
  of \<^verbatim>\<open>ListenAndServe\<close> is discarded in the goroutine.
\<close>

theorem bound_port_construction:
  assumes "bound w (Port (initDefaults opts))"
  shows "serving (NewPrometheusMetricsProvider w (Some opts)) = None
       \<and> (\<forall>msg. returned (NewPrometheusMetricsProvider w (Some opts)) \<noteq> Inl (Panic msg))
       \<and> (case exporter_err w of
            None \<Rightarrow> returned (NewPrometheusMetricsProvider w (Some opts)) = Inr \<lparr> meter = ebpfMeter \<rparr>
          | Some err \<Rightarrow> returned (NewPrometheusMetricsProvider w (Some opts))
              = Inl (InitError (''failed to initialize prometheus exporter '' @ err)))"
proof -
  have path: "MetricsPath (initDefaults opts) \<noteq> []"
    by (simp add: initDefaults_def Let_def)
  show ?thesis
    using assms path
    by (cases "exporter_err w")
       (simp_all add: NewPrometheusMetricsProvider_def HandleFunc_def ListenAndServe_def Let_def)
qed

theorem bound_port_construction_witness:
  "serving (NewPrometheusMetricsProvider
       \<lparr> exporter_err = None, bound = (\<lambda>p. p = 9091) \<rparr> (Some \<lparr> Port = 0, MetricsPath = [] \<rparr>)) = None
   \<and> returned (NewPrometheusMetricsProvider
       \<lparr> exporter_err = None, bound = (\<lambda>p. p = 9091) \<rparr> (Some \<lparr> Port = 0, MetricsPath = [] \<rparr>))
     = Inr \<lparr> meter = ebpfMeter \<rparr>"
  using bound_port_construction [of "\<lparr> exporter_err = None, bound = (\<lambda>p. p = 9091) \<rparr>"
      "\<lparr> Port = 0, MetricsPath = [] \<rparr>"]
  by (simp add: initDefaults_def)

subsection \<open>Goroutines on one gauge: the lock's invariant\<close>

lemma local_ok_lock [simp]: "local_ok G (g\<lparr> lock := m \<rparr>) t = local_ok G g t"
  by (cases t) simp_all

lemma local_ok_labels:
  "\<not> in_write t \<Longrightarrow> \<not> in_read t \<Longrightarrow> local_ok G (g\<lparr> labels := ls \<rparr>) t = local_ok G g t"
  by (cases t) simp_all

lemma local_ok_val:
  "\<not> in_write t \<Longrightarrow> \<not> in_read t \<Longrightarrow> local_ok G (g\<lparr> val := v \<rparr>) t = local_ok G g t"
  by (cases t) simp_all

lemma none_of: "size (filter_mset P M) = 0 \<Longrightarrow> t \<in># M \<Longrightarrow> \<not> P t"
  by auto

lemma others_labels:
  assumes "size (filter_mset in_write M) = 0" and "size (filter_mset in_read M) = 0"
    and "\<forall>t \<in># M. local_ok G g t"
  shows "\<forall>t \<in># M. local_ok G (g\<lparr> labels := ls \<rparr>) t"
  using assms by (metis local_ok_labels none_of)

lemma others_val:
  assumes "size (filter_mset in_write M) = 0" and "size (filter_mset in_read M) = 0"
    and "\<forall>t \<in># M. local_ok G g t"
  shows "\<forall>t \<in># M. local_ok G (g\<lparr> val := v \<rparr>) t"
  using assms by (metis local_ok_val none_of)

lemma inv_Set_enter:
  "gauge_inv G g (add_mset (Set_enter v m) M) \<Longrightarrow> gauge_inv G g (add_mset (Set_Lock v (transformLabels m)) M)"
  by (simp add: gauge_inv_def)

lemma inv_Set_Lock:
  "gauge_inv G g (add_mset (Set_Lock v ls) M) \<Longrightarrow> Lock (lock g) = Some m
   \<Longrightarrow> gauge_inv G (g\<lparr> lock := m \<rparr>) (add_mset (Set_write_labels v ls) M)"
  by (auto simp: gauge_inv_def Lock_def split: if_splits)

lemma inv_Set_write_labels:
  assumes "gauge_inv G g (add_mset (Set_write_labels v ls) M)"
  shows "gauge_inv G (g\<lparr> labels := ls \<rparr>) (add_mset (Set_write_val v ls) M)"
proof -
  from assms have w: "writer (lock g)" and r: "readers (lock g) = 0"
    by (auto simp: gauge_inv_def split: if_splits)
  from assms w r have z: "size (filter_mset in_write M) = 0" "size (filter_mset in_read M) = 0"
    by (simp_all add: gauge_inv_def)
  from assms have "\<forall>t \<in># M. local_ok G g t" by (simp add: gauge_inv_def)
  with z have "\<forall>t \<in># M. local_ok G (g\<lparr> labels := ls \<rparr>) t" by (rule others_labels)
  with assms w r z show ?thesis by (simp add: gauge_inv_def)
qed

lemma inv_Set_write_val:
  assumes "gauge_inv G g (add_mset (Set_write_val v ls) M)"
  shows "gauge_inv G (g\<lparr> val := v \<rparr>) (add_mset (Set_Unlock v ls) M)"
proof -
  from assms have w: "writer (lock g)" and r: "readers (lock g) = 0"
    by (auto simp: gauge_inv_def split: if_splits)
  from assms w r have z: "size (filter_mset in_write M) = 0" "size (filter_mset in_read M) = 0"
    by (simp_all add: gauge_inv_def)
  from assms have "\<forall>t \<in># M. local_ok G g t" by (simp add: gauge_inv_def)
  with z have "\<forall>t \<in># M. local_ok G (g\<lparr> val := v \<rparr>) t" by (rule others_val)
  with assms w r z show ?thesis by (simp add: gauge_inv_def)
qed

lemma inv_Set_Unlock:
  assumes "gauge_inv G g (add_mset (Set_Unlock v ls) M)"
  shows "gauge_inv G (g\<lparr> lock := Unlock (lock g) \<rparr>) (add_mset (Set_done v ls) M)"
proof -
  from assms have w: "writer (lock g)" and r: "readers (lock g) = 0"
    by (auto simp: gauge_inv_def split: if_splits)
  with assms show ?thesis by (simp add: gauge_inv_def Unlock_def)
qed

lemma inv_Obs_RLock:
  "gauge_inv G g (add_mset Obs_RLock M) \<Longrightarrow> RLock (lock g) = Some m
   \<Longrightarrow> gauge_inv G (g\<lparr> lock := m \<rparr>) (add_mset Obs_read_val M)"
  by (auto simp: gauge_inv_def RLock_def split: if_splits)

lemma inv_Obs_read_val:
  "gauge_inv G g (add_mset Obs_read_val M) \<Longrightarrow> gauge_inv G g (add_mset (Obs_read_labels (val g)) M)"
  by (simp add: gauge_inv_def)

lemma inv_Obs_read_labels:
  "gauge_inv G g (add_mset (Obs_read_labels x) M) \<Longrightarrow> gauge_inv G g (add_mset (Obs_RUnlock x (labels g)) M)"
  by (simp add: gauge_inv_def)

lemma inv_Obs_RUnlock:
  assumes "gauge_inv G g (add_mset (Obs_RUnlock x ls) M)"
  shows "gauge_inv G (g\<lparr> lock := RUnlock (lock g) \<rparr>) (add_mset (Obs_Observe x ls) M)"
proof -
  from assms have "readers (lock g) \<noteq> 0" by (auto simp: gauge_inv_def)
  with assms have nw: "\<not> writer (lock g)" by (auto simp: gauge_inv_def)
  with assms show ?thesis by (auto simp: gauge_inv_def RUnlock_def)
qed

lemma inv_Obs_Observe:
  "gauge_inv G g (add_mset (Obs_Observe x ls) M) \<Longrightarrow> gauge_inv G g (add_mset (Obs_done x ls) M)"
  by (simp add: gauge_inv_def)

lemma gauge_step_inv:
  assumes "gauge_inv G g (add_mset t M)" and "gauge_step g t = Some (g', t')"
  shows "gauge_inv G g' (add_mset t' M)"
  using assms
  by (cases t)
     (auto split: option.splits
           intro: inv_Set_enter inv_Set_Lock inv_Set_write_labels inv_Set_write_val inv_Set_Unlock
                  inv_Obs_RLock inv_Obs_read_val inv_Obs_read_labels inv_Obs_RUnlock inv_Obs_Observe)


lemma gauge_sched_inv:
  assumes "gauge_inv G g (mset ts)"
  shows "gauge_inv G (fst (gauge_sched i (g, ts))) (mset (snd (gauge_sched i (g, ts))))"
proof (cases "i < length ts")
  case False
  with assms show ?thesis by (simp add: gauge_sched_def)
next
  case True
  show ?thesis
  proof (cases "gauge_step g (ts ! i)")
    case None
    with True assms show ?thesis by (simp add: gauge_sched_def)
  next
    case (Some r)
    obtain g' t' where r: "r = (g', t')" by (cases r)
    define M where "M = mset ts - {#ts ! i#}"
    from True have "ts ! i \<in># mset ts" by simp
    then have old: "mset ts = add_mset (ts ! i) M" by (simp add: M_def)
    from True have new: "mset (ts[i := t']) = add_mset t' M" by (simp add: M_def mset_update)
    from assms old have "gauge_inv G g (add_mset (ts ! i) M)" by simp
    moreover from Some r have "gauge_step g (ts ! i) = Some (g', t')" by simp
    ultimately have "gauge_inv G g' (add_mset t' M)" by (rule gauge_step_inv)
    with True Some r new show ?thesis by (simp add: gauge_sched_def)
  qed
qed

lemma gauge_run_inv:
  assumes "gauge_inv G (fst s) (mset (snd s))"
  shows "gauge_inv G (fst (gauge_run sched s)) (mset (snd (gauge_run sched s)))"
  using assms
proof (induction sched arbitrary: s)
  case Nil
  then show ?case by simp
next
  case (Cons i sched)
  obtain g ts where s: "s = (g, ts)" by (cases s)
  with Cons.prems have "gauge_inv G g (mset ts)" by simp
  then have "gauge_inv G (fst (gauge_sched i s)) (mset (snd (gauge_sched i s)))"
    unfolding s by (rule gauge_sched_inv)
  then show ?case by (simp add: Cons.IH)
qed

lemma at_entry_outside: "at_entry t \<Longrightarrow> \<not> in_write t \<and> \<not> in_read t"
  by (cases t) simp_all

lemma entry_pair_map_filter:
  "t \<in> set ts \<Longrightarrow> entry_pair t = Some p \<Longrightarrow> p \<in> set (List.map_filter entry_pair ts)"
  by (induction ts) (auto simp: map_filter_simps split: option.splits)

lemma entry_pair_whole:
  "t \<in> set ts \<Longrightarrow> entry_pair t = Some p \<Longrightarrow> p \<in> set (whole_pairs g ts)"
  by (simp add: whole_pairs_def entry_pair_map_filter)

lemma gauge_inv_init:
  assumes "lock g = unlocked" and "\<forall>t \<in> set ts. at_entry t"
  shows "gauge_inv (set (whole_pairs g ts)) g (mset ts)"
proof -
  have "filter in_write ts = []" "filter in_read ts = []"
    using assms(2) by (auto simp: filter_empty_conv dest: at_entry_outside)
  then have "filter_mset in_write (mset ts) = {#}" "filter_mset in_read (mset ts) = {#}"
    by (simp_all flip: mset_filter)
  then have c: "size (filter_mset in_write (mset ts)) = 0" "size (filter_mset in_read (mset ts)) = 0"
    by (simp_all only: size_empty)
  have l: "local_ok (set (whole_pairs g ts)) g t" if "t \<in> set ts" for t
  proof -
    from that assms(2) have "at_entry t" by blast
    then show ?thesis
    proof (cases t)
      case (Set_enter v m)
      with that have "(v, transformLabels m) \<in> set (whole_pairs g ts)"
        by (intro entry_pair_whole [of t]) simp_all
      with Set_enter show ?thesis by simp
    qed simp_all
  qed
  have w: "(val g, labels g) \<in> set (whole_pairs g ts)" by (simp add: whole_pairs_def)
  have k: "\<not> writer (lock g)" "readers (lock g) = 0"
    using assms(1) by (simp_all add: unlocked_def)
  show ?thesis
    unfolding gauge_inv_def
  proof (intro conjI)
    show "size (filter_mset in_write (mset ts)) = (if writer (lock g) then 1 else 0)"
      using c(1) k(1) by simp
    show "size (filter_mset in_read (mset ts)) = readers (lock g)"
      using c(2) k(2) by simp
    show "writer (lock g) \<longrightarrow> readers (lock g) = 0" using k by simp
    show "\<not> writer (lock g) \<longrightarrow> (val g, labels g) \<in> set (whole_pairs g ts)" using w by simp
    show "\<forall>t \<in># mset ts. local_ok (set (whole_pairs g ts)) g t" using l by simp
  qed
qed

lemma gauge_inv_snapshot:
  assumes "gauge_inv G g (mset ts)" and "t \<in> set ts" and "snapshot t = Some p"
  shows "p \<in> G"
proof (cases t)
  case (Obs_RUnlock x ls)
  from assms(2) Obs_RUnlock have "t \<in># filter_mset in_read (mset ts)" by simp
  then have "size (filter_mset in_read (mset ts)) \<noteq> 0" by auto
  with assms(1) have "(val g, labels g) \<in> G" by (auto simp: gauge_inv_def)
  moreover from assms(1,2) have "local_ok G g t" by (simp add: gauge_inv_def)
  ultimately show ?thesis using assms(3) Obs_RUnlock by simp
next
  case (Obs_Observe x ls)
  from assms(1,2) have "local_ok G g t" by (simp add: gauge_inv_def)
  with assms(3) Obs_Observe show ?thesis by simp
next
  case (Obs_done x ls)
  from assms(1,2) have "local_ok G g t" by (simp add: gauge_inv_def)
  with assms(3) Obs_done show ?thesis by simp
qed (use assms(3) in simp_all)

lemma gauge_inv_exclusion:
  assumes "gauge_inv G g (mset ts)"
  shows "length (filter in_write ts) \<le> 1 \<and> (filter in_write ts = [] \<or> filter in_read ts = [])"
proof -
  have w: "length (filter in_write ts) = size (filter_mset in_write (mset ts))"
    and r: "length (filter in_read ts) = size (filter_mset in_read (mset ts))"
    by (simp_all flip: mset_filter)
  from assms have "size (filter_mset in_write (mset ts)) = (if writer (lock g) then 1 else 0)"
    and "size (filter_mset in_read (mset ts)) = readers (lock g)"
    and "writer (lock g) \<longrightarrow> readers (lock g) = 0"
    by (simp_all add: gauge_inv_def)
  with w r have "length (filter in_write ts) \<le> 1"
    and "length (filter in_write ts) = 0 \<or> length (filter in_read ts) = 0"
    by (auto split: if_splits)
  then show ?thesis by simp
qed

subsection \<open>Claims about concurrent use of the gauge\<close>

text \<open>
  C6. Start any number of \<^verbatim>\<open>gauge.Set\<close> calls and observer callbacks on a gauge whose lock
  is free, and interleave their statements in any order. Whenever a callback has read
  both cells, the pair it holds (and passes to \<^verbatim>\<open>Observe\<close>) is a whole pair: the pair that
  was in the cells at the start, or the value and the labels of one and the same \<open>Set\<close>
  call. And reads and writes exclude each other: at most one goroutine is in its write
  section, and none is while any is in its read section.
\<close>

theorem gauge_snapshot_whole:
  assumes "lock g = unlocked" and "\<forall>t \<in> set ts. at_entry t"
  shows "(\<forall>t \<in> set (snd (gauge_run sched (g, ts))). \<forall>p. snapshot t = Some p \<longrightarrow> p \<in> set (whole_pairs g ts))
       \<and> length (filter in_write (snd (gauge_run sched (g, ts)))) \<le> 1
       \<and> (filter in_write (snd (gauge_run sched (g, ts))) = []
            \<or> filter in_read (snd (gauge_run sched (g, ts))) = [])"
proof -
  from assms have "gauge_inv (set (whole_pairs g ts)) (fst (g, ts)) (mset (snd (g, ts)))"
    by (simp add: gauge_inv_init)
  then have inv: "gauge_inv (set (whole_pairs g ts)) (fst (gauge_run sched (g, ts)))
      (mset (snd (gauge_run sched (g, ts))))"
    by (rule gauge_run_inv)
  have "p \<in> set (whole_pairs g ts)"
    if "t \<in> set (snd (gauge_run sched (g, ts)))" and "snapshot t = Some p" for t p
    using inv that by (rule gauge_inv_snapshot)
  moreover from inv have "length (filter in_write (snd (gauge_run sched (g, ts)))) \<le> 1
      \<and> (filter in_write (snd (gauge_run sched (g, ts))) = []
            \<or> filter in_read (snd (gauge_run sched (g, ts))) = [])"
    by (rule gauge_inv_exclusion)
  ultimately show ?thesis by blast
qed

theorem gauge_snapshot_whole_witness:
  "gauge_run [0, 0, 1, 0, 0, 0, 1, 1, 1, 1, 1] (NewGauge, [Set_enter 5 [(''a'', ''x'')], Obs_RLock])
     = (\<lparr> val = 5, labels = [KeyValue ''a'' ''x''], lock = unlocked \<rparr>,
        [Set_done 5 [KeyValue ''a'' ''x''], Obs_done 5 [KeyValue ''a'' ''x'']])
   \<and> (5, [KeyValue ''a'' ''x'']) \<in> set (whole_pairs NewGauge [Set_enter 5 [(''a'', ''x'')], Obs_RLock])"
proof -
  have run: "gauge_run [0, 0, 1, 0, 0, 0, 1, 1, 1, 1, 1] (NewGauge, [Set_enter 5 [(''a'', ''x'')], Obs_RLock])
     = (\<lparr> val = 5, labels = [KeyValue ''a'' ''x''], lock = unlocked \<rparr>,
        [Set_done 5 [KeyValue ''a'' ''x''], Obs_done 5 [KeyValue ''a'' ''x'']])"
    by code_simp
  have "lock NewGauge = unlocked" by (simp add: NewGauge_def)
  moreover have "\<forall>t \<in> set [Set_enter 5 [(''a'', ''x'')], Obs_RLock]. at_entry t" by simp
  ultimately have "\<forall>t \<in> set (snd (gauge_run [0, 0, 1, 0, 0, 0, 1, 1, 1, 1, 1]
        (NewGauge, [Set_enter 5 [(''a'', ''x'')], Obs_RLock]))).
      \<forall>p. snapshot t = Some p \<longrightarrow> p \<in> set (whole_pairs NewGauge [Set_enter 5 [(''a'', ''x'')], Obs_RLock])"
    by (rule gauge_snapshot_whole [THEN conjunct1])
  then have "(5, [KeyValue ''a'' ''x'']) \<in> set (whole_pairs NewGauge [Set_enter 5 [(''a'', ''x'')], Obs_RLock])"
    unfolding run by simp
  with run show ?thesis by simp
qed

subsection \<open>A goroutine running alone\<close>

text \<open>
  Run without interruption, a goroutine does what the function it executes does: the
  statement-wise models agree with \<open>setCounter_Set\<close>, \<open>gauge_Set\<close> and \<open>observer\<close>.
\<close>

lemma setCounter_run_alone:
  "setCounter_run hash [0, 0, 0, 0, 0] (c, [SC_enter v m])
     = (case setCounter_Set hash c v m of
          Inl e \<Rightarrow> Inl e
        | Inr c' \<Rightarrow> Inr (c', [SC_done]))"
  by (cases "hash m")
     (simp_all add: setCounter_sched_def setCounter_Set_def Let_def counter_Add_def)

lemma gauge_run_Set_alone:
  assumes "gauge_Set g v m = Some g'"
  shows "gauge_run [0, 0, 0, 0, 0] (g, [Set_enter v m]) = (g', [Set_done v (transformLabels m)])"
  using assms
  by (auto simp: gauge_sched_def gauge_Set_def Let_def split: option.splits)

lemma gauge_run_observer_alone:
  assumes "observer g = Some (g', x, ls)"
  shows "gauge_run [0, 0, 0, 0, 0] (g, [Obs_RLock]) = (g', [Obs_done x ls])"
  using assms
  by (auto simp: gauge_sched_def observer_def Let_def split: option.splits)

subsection \<open>Claims about concurrent use of the Set Instrument\<close>

text \<open>
  C5. The claim is that a lock makes lookup, difference and store one critical section, so
  that concurrent \<open>Set\<close> calls on one key lose no update. There is no lock: two calls
  \<open>Set({}, 5)\<close> and \<open>Set({}, 7)\<close> on a new instrument, with the same (empty) label
  mapping and so the same key, whose statements alternate, both read the baseline 0. The
  backend is sent 5 and 7, a total of 12, while the map records 7.
\<close>

theorem setCounter_lost_update:
  "left 0 (setCounter_run (\<lambda>l. Inr 0) [0, 1, 0, 1, 0, 1, 0, 1, 0, 1]
       (NewSetCounter, [SC_enter 5 [], SC_enter 7 []]))
     = Some ([(5, []), (7, [])], 7, [SC_done, SC_done])
   \<and> total [(5, []), (7, [])] = 12"
  by (simp add: left_def setCounter_sched_def NewSetCounter_def lookup_def counter_Add_def
      transformLabels_eq total_def)

end
